theory Spec2Isabelle
  imports Main "HOL-Library.Word"
begin

section \<open>The kernel log buffer (klogbuf): data model\<close>

text \<open>
  The character device keeps one ring buffer in module-level variables:
  \<^verbatim>\<open>buffer_size\<close> (the module parameter), \<^verbatim>\<open>klog_buffer\<close> (the storage,
  \<^verbatim>\<open>buffer_size\<close> bytes), \<^verbatim>\<open>buffer_head\<close> (next write position) and
  \<^verbatim>\<open>buffer_available\<close> (number of valid bytes). They are the fields of one
  record, and every operation takes the record and returns it as the C function leaves it.

  The sizes are \<^verbatim>\<open>size_t\<close> values. On a store that satisfies \<open>klog_inv\<close> below, every
  sum the code forms is below \<open>3 * buffer_size\<close> (the request length only enters through
  \<^verbatim>\<open>min\<close>), with \<open>buffer_size\<close> an \<^verbatim>\<open>int\<close>: far below the 64-bit wrap-around.
  Every subtraction is kept non-negative by the invariant or by the branch it stands in
  (\<^verbatim>\<open>buffer_head >= buffer_available\<close>, \<^verbatim>\<open>read_pos + bytes_to_read > buffer_size\<close>).
  So the sizes are modelled as \<open>nat\<close>, and the theorems are stated on stores that satisfy
  the invariant.
\<close>

type_synonym byte = "8 word"

datatype errno = EFAULT | ENOMEM

record klog =
  buffer_size :: nat
  klog_buffer :: "byte list"
  buffer_head :: nat
  buffer_available :: nat

text \<open>
  The store that a successful \<^verbatim>\<open>klog_init\<close> leaves: \<^verbatim>\<open>kmalloc\<close> of
  \<^verbatim>\<open>buffer_size\<close> bytes, \<^verbatim>\<open>memset\<close> to zero, head and available at their
  static initial value 0. (Every failure path of \<^verbatim>\<open>klog_init\<close> frees the buffer and
  returns an error: no store exists then.)
\<close>

definition klog_init :: "nat \<Rightarrow> klog" where
  "klog_init sz =
     \<lparr>buffer_size = sz, klog_buffer = replicate sz 0, buffer_head = 0, buffer_available = 0\<rparr>"

text \<open>The state invariant of the data model: a positive capacity, storage of that length,
  \<open>head < capacity\<close> and \<open>available \<le> capacity\<close>.\<close>

definition klog_inv :: "klog \<Rightarrow> bool" where
  "klog_inv st \<longleftrightarrow>
     0 < buffer_size st \<and> length (klog_buffer st) = buffer_size st \<and>
     buffer_head st < buffer_size st \<and> buffer_available st \<le> buffer_size st"

section \<open>Memory copies\<close>

text \<open>\<^verbatim>\<open>memcpy(dst, buf + pos, n)\<close>: the \<open>n\<close> bytes of \<open>buf\<close> from index \<open>pos\<close>.\<close>

definition mem_read :: "byte list \<Rightarrow> nat \<Rightarrow> nat \<Rightarrow> byte list" where
  "mem_read buf pos n = take n (drop pos buf)"

text \<open>\<^verbatim>\<open>memcpy(buf + pos, bs, length bs)\<close>: \<open>buf\<close> with \<open>bs\<close> stored from index \<open>pos\<close>.\<close>

definition mem_write :: "byte list \<Rightarrow> nat \<Rightarrow> byte list \<Rightarrow> byte list" where
  "mem_write buf pos bs = take pos buf @ bs @ drop (pos + length bs) buf"

text \<open>
  User memory is not part of the store. A caller's buffer is its bytes together with a
  predicate saying which of its offsets can be accessed without a fault;
  \<open>uaccess_ok acc p n\<close> says that the \<open>n\<close> offsets from \<open>p\<close> are all accessible.
\<close>

definition uaccess_ok :: "(nat \<Rightarrow> bool) \<Rightarrow> nat \<Rightarrow> nat \<Rightarrow> bool" where
  "uaccess_ok acc p n = list_all acc [p..<p + n]"

definition all_ok :: "nat \<Rightarrow> bool" where
  "all_ok i = True"

definition ok_below :: "nat \<Rightarrow> nat \<Rightarrow> bool" where
  "ok_below k i = (i < k)"

text \<open>
  \<^verbatim>\<open>copy_from_user(buf + dst, data + src, n)\<close> is the kernel's primitive
  (\<^verbatim>\<open>linux/uaccess.h\<close>), with its documented contract: it returns the number of bytes
  it could not copy (0 on success); the bytes before the fault are copied and the rest of
  the destination is padded with zero bytes.
\<close>

definition copy_from_user ::
  "byte list \<Rightarrow> nat \<Rightarrow> (nat \<Rightarrow> bool) \<Rightarrow> byte list \<Rightarrow> nat \<Rightarrow> nat \<Rightarrow> nat \<times> byte list" where
  "copy_from_user buf dst readable data src n =
     (let k = length (takeWhile readable [src..<src + n])
      in (n - k, mem_write buf dst (take k (drop src data) @ replicate (n - k) 0)))"

text \<open>
  \<^verbatim>\<open>copy_to_user(ubuf + dst, bs, length bs)\<close>: \<open>Some bs\<close>, the bytes now in the
  caller's buffer from offset \<open>dst\<close>, when it returns 0; \<open>None\<close> when it reports a fault
  (the caller's buffer is then not part of any result: the operation returns an error).
\<close>

definition copy_to_user :: "(nat \<Rightarrow> bool) \<Rightarrow> nat \<Rightarrow> byte list \<Rightarrow> byte list option" where
  "copy_to_user writable dst bs = (if uaccess_ok writable dst (length bs) then Some bs else None)"

section \<open>The operations\<close>

text \<open>
  \<^verbatim>\<open>klog_read(filep, buffer, len, offset)\<close>. The result is the error, or the bytes
  delivered to the caller's buffer (their number is the C return value) with the updated
  file position \<^verbatim>\<open>*offset\<close>; the second component is the store after the call.
  The file position is a \<^verbatim>\<open>loff_t\<close> that the file layer keeps non-negative, hence a
  \<open>nat\<close>; \<open>writable\<close> says which offsets of the caller's buffer can be written.
\<close>

definition klog_read ::
  "klog \<Rightarrow> (nat \<Rightarrow> bool) \<Rightarrow> nat \<Rightarrow> nat \<Rightarrow> (errno + byte list \<times> nat) \<times> klog" where
  "klog_read st writable len offset =
     (if buffer_available st = 0 then (Inr ([], offset), st)
      else
        let bytes_to_read = min len (buffer_available st) in
        if offset < buffer_available st then
          let read_pos =
                (buffer_head st + buffer_size st - buffer_available st + offset) mod buffer_size st
          in
          if read_pos + bytes_to_read > buffer_size st then
            let contiguous_bytes = buffer_size st - read_pos in
            (case copy_to_user writable 0 (mem_read (klog_buffer st) read_pos contiguous_bytes) of
               None \<Rightarrow> (Inl EFAULT, st)
             | Some part1 \<Rightarrow>
                 (case copy_to_user writable contiguous_bytes
                         (mem_read (klog_buffer st) 0 (bytes_to_read - contiguous_bytes)) of
                    None \<Rightarrow> (Inl EFAULT, st)
                  | Some part2 \<Rightarrow> (Inr (part1 @ part2, offset + bytes_to_read), st)))
          else
            (case copy_to_user writable 0 (mem_read (klog_buffer st) read_pos bytes_to_read) of
               None \<Rightarrow> (Inl EFAULT, st)
             | Some part \<Rightarrow> (Inr (part, offset + bytes_to_read), st))
        else (Inr ([], offset), st))"

text \<open>
  \<^verbatim>\<open>klog_write(filep, buffer, len, offset)\<close> with \<open>len = length data\<close>. The result is
  the error or the number of bytes written, and the store after the call. The caller's
  file position is only incremented, never read, and is left out.
\<close>

definition klog_write ::
  "klog \<Rightarrow> byte list \<Rightarrow> (nat \<Rightarrow> bool) \<Rightarrow> (errno + nat) \<times> klog" where
  "klog_write st data readable =
     (let bytes_to_write = min (length data) (buffer_size st) in
      if buffer_head st + bytes_to_write > buffer_size st then
        let contiguous_bytes = buffer_size st - buffer_head st;
            (ret1, buf1) =
               copy_from_user (klog_buffer st) (buffer_head st) readable data 0 contiguous_bytes
        in
        if ret1 \<noteq> 0 then (Inl EFAULT, st\<lparr>klog_buffer := buf1\<rparr>)
        else
          let (ret2, buf2) =
                copy_from_user buf1 0 readable data contiguous_bytes
                  (bytes_to_write - contiguous_bytes)
          in
          if ret2 \<noteq> 0 then (Inl EFAULT, st\<lparr>klog_buffer := buf2\<rparr>)
          else
            (Inr bytes_to_write,
             st\<lparr>klog_buffer := buf2,
                buffer_head := (buffer_head st + bytes_to_write) mod buffer_size st,
                buffer_available := min (buffer_available st + bytes_to_write) (buffer_size st)\<rparr>)
      else
        let (ret, buf) =
              copy_from_user (klog_buffer st) (buffer_head st) readable data 0 bytes_to_write
        in
        if ret \<noteq> 0 then (Inl EFAULT, st\<lparr>klog_buffer := buf\<rparr>)
        else
          (Inr bytes_to_write,
           st\<lparr>klog_buffer := buf,
              buffer_head := (buffer_head st + bytes_to_write) mod buffer_size st,
              buffer_available := min (buffer_available st + bytes_to_write) (buffer_size st)\<rparr>))"

text \<open>
  The copy block of \<^verbatim>\<open>klog_proc_show\<close>: the first \<^verbatim>\<open>buffer_available\<close> bytes
  of \<^verbatim>\<open>temp_buffer\<close>, taken from the storage in one piece when
  \<^verbatim>\<open>buffer_head >= buffer_available\<close> and in two pieces otherwise.
\<close>

definition klog_snapshot :: "klog \<Rightarrow> byte list" where
  "klog_snapshot st =
     (if buffer_head st \<ge> buffer_available st then
        mem_read (klog_buffer st) (buffer_head st - buffer_available st) (buffer_available st)
      else
        let first_part = buffer_size st - (buffer_available st - buffer_head st) in
        mem_read (klog_buffer st) first_part (buffer_available st - buffer_head st)
          @ mem_read (klog_buffer st) 0 (buffer_head st))"

text \<open>\<^verbatim>\<open>seq_printf(m, "%s", s)\<close> emits the bytes of \<open>s\<close> before its first zero byte.\<close>

definition seq_printf_s :: "byte list \<Rightarrow> byte list" where
  "seq_printf_s s = takeWhile (\<lambda>c. c \<noteq> 0) s"

text \<open>
  \<^verbatim>\<open>klog_proc_show\<close>: \<open>alloc_ok\<close> says whether \<^verbatim>\<open>kmalloc\<close> returned a buffer.
  The result is \<^verbatim>\<open>-ENOMEM\<close>, or the bytes emitted to the seq file.
\<close>

definition klog_proc_show :: "klog \<Rightarrow> bool \<Rightarrow> (errno + byte list) \<times> klog" where
  "klog_proc_show st alloc_ok =
     (if \<not> alloc_ok then (Inl ENOMEM, st)
      else
        let temp_buffer = klog_snapshot st @ [0]
        in (Inr (seq_printf_s temp_buffer), st))"

section \<open>Sequences of calls\<close>

text \<open>Successive successful writes (every byte of every input is readable).\<close>

fun appends :: "klog \<Rightarrow> byte list list \<Rightarrow> klog" where
  "appends st [] = st"
| "appends st (d # ds) = appends (snd (klog_write st d all_ok)) ds"

text \<open>Any call of the device's interface, with its arguments, and its effect on the store.\<close>

datatype call =
    Write "byte list" "nat \<Rightarrow> bool"
  | Read "nat \<Rightarrow> bool" nat nat
  | Dump bool

fun step :: "klog \<Rightarrow> call \<Rightarrow> klog" where
  "step st (Write data readable) = snd (klog_write st data readable)"
| "step st (Read writable len offset) = snd (klog_read st writable len offset)"
| "step st (Dump alloc_ok) = snd (klog_proc_show st alloc_ok)"

fun run :: "klog \<Rightarrow> call list \<Rightarrow> klog" where
  "run st [] = st"
| "run st (c # cs) = run (step st c) cs"

text \<open>The last \<open>k\<close> elements of a list.\<close>

definition lastn :: "nat \<Rightarrow> 'a list \<Rightarrow> 'a list" where
  "lastn k xs = drop (length xs - k) xs"

text \<open>The storage read once around the ring, starting at the head: the view in which a
  write replaces a prefix and the logical window is a suffix.\<close>

definition ring :: "klog \<Rightarrow> byte list" where
  "ring st = drop (buffer_head st) (klog_buffer st) @ take (buffer_head st) (klog_buffer st)"

section \<open>Auxiliary facts\<close>

subsection \<open>Lists and user accesses\<close>

lemma takeWhile_all: "list_all P xs \<Longrightarrow> takeWhile P xs = xs"
  by (induction xs) auto

lemma takeWhile_short: "\<not> list_all P xs \<Longrightarrow> length (takeWhile P xs) < length xs"
  by (induction xs) auto

lemma copy_from_user_ok:
  "uaccess_ok readable src n \<Longrightarrow>
   copy_from_user buf dst readable data src n = (0, mem_write buf dst (take n (drop src data)))"
  by (simp add: copy_from_user_def uaccess_ok_def takeWhile_all)

lemma copy_from_user_fault:
  "\<not> uaccess_ok readable src n \<Longrightarrow> fst (copy_from_user buf dst readable data src n) \<noteq> 0"
  using takeWhile_short [of readable "[src..<src + n]"]
  by (simp add: copy_from_user_def uaccess_ok_def Let_def)

lemma length_copy_from_user:
  "dst + n \<le> length buf \<Longrightarrow> src + n \<le> length data \<Longrightarrow>
   length (snd (copy_from_user buf dst readable data src n)) = length buf"
  using length_takeWhile_le [of readable "[src..<src + n]"]
  by (auto simp add: copy_from_user_def mem_write_def Let_def min_def)

lemma uaccess_ok_split:
  "c \<le> n \<Longrightarrow> uaccess_ok acc 0 n \<longleftrightarrow> uaccess_ok acc 0 c \<and> uaccess_ok acc c (n - c)"
proof -
  assume "c \<le> n"
  then have "[0..<n] = [0..<c] @ [c..<n]"
    using upt_add_eq_append [of 0 c "n - c"] by simp
  with \<open>c \<le> n\<close> show ?thesis
    by (simp add: uaccess_ok_def)
qed


lemma klog_snapshot_ring:
  "klog_inv st \<Longrightarrow> klog_snapshot st = lastn (buffer_available st) (ring st)"
  by (auto simp add: klog_inv_def klog_snapshot_def ring_def lastn_def mem_read_def Let_def drop_take)

lemma lastn_append: "length ys \<le> k \<Longrightarrow> lastn k (xs @ ys) = lastn (k - length ys) xs @ ys"
  by (simp add: lastn_def)

lemma lastn_drop: "k \<le> length xs - n \<Longrightarrow> lastn k (drop n xs) = lastn k xs"
proof (cases "n \<le> length xs")
  case True
  assume "k \<le> length xs - n"
  with True have "length xs - (n + k) + n = length xs - k" by arith
  then show ?thesis by (simp add: lastn_def)
next
  case False
  assume "k \<le> length xs - n"
  with False show ?thesis by (simp add: lastn_def)
qed

lemma lastn_lastn: "k \<le> m \<Longrightarrow> lastn k (lastn m xs) = lastn k xs"
proof -
  assume "k \<le> m"
  then have "length xs - (length xs - m + k) + (length xs - m) = length xs - k" by arith
  then show ?thesis by (simp add: lastn_def)
qed

lemma length_lastn: "length (lastn k xs) = min k (length xs)"
  by (simp add: lastn_def)

lemma lastn_all: "length xs \<le> k \<Longrightarrow> lastn k xs = xs"
  by (simp add: lastn_def)

lemma lastn_lastn_append:
  "k \<le> m + length ys \<Longrightarrow> lastn k (lastn m xs @ ys) = lastn k (xs @ ys)"
proof (cases "length ys \<le> k")
  case True
  assume "k \<le> m + length ys"
  with True have "k - length ys \<le> m" by arith
  with True show ?thesis by (simp add: lastn_append lastn_lastn)
next
  case False
  then show ?thesis by (simp add: lastn_def)
qed

lemma rotate_ring:
  assumes "length B = sz" "h < sz" "n \<le> sz"
  shows "drop ((h + n) mod sz) B @ take ((h + n) mod sz) B =
         drop n (drop h B @ take h B) @ take n (drop h B @ take h B)"
proof -
  let ?R = "drop h B @ take h B"
  have R: "rotate h B = ?R" using assms by (simp add: rotate_drop_take)
  have "drop ((h + n) mod sz) B @ take ((h + n) mod sz) B = rotate (n + h) B"
    using assms by (simp add: rotate_drop_take add.commute)
  also have "\<dots> = rotate n ?R" by (simp add: rotate_rotate R [symmetric])
  also have "\<dots> = drop n ?R @ take n ?R"
  proof (cases "n = sz")
    case True
    with assms show ?thesis by (simp add: rotate_drop_take)
  next
    case False
    with assms have "n mod length ?R = n" by simp
    then show ?thesis by (simp only: rotate_drop_take [of n ?R])
  qed
  finally show ?thesis .
qed

lemma ring_nth:
  assumes "length B = sz" "h < sz" "k < sz"
  shows "(drop h B @ take h B) ! k = B ! ((h + k) mod sz)"
proof -
  have "rotate h B = drop h B @ take h B" using assms by (simp add: rotate_drop_take)
  then show ?thesis using assms nth_rotate [of k B h] by simp
qed


lemma length_mem_read: "pos + n \<le> length buf \<Longrightarrow> length (mem_read buf pos n) = n"
  by (simp add: mem_read_def)

subsection \<open>A write whose copies succeed\<close>

lemma klog_write_ok:
  assumes inv: "klog_inv st"
    and n: "n = min (length data) (buffer_size st)"
    and ok: "uaccess_ok readable 0 n"
  shows "\<exists>B. klog_write st data readable =
           (Inr n, st\<lparr>klog_buffer := B,
                       buffer_head := (buffer_head st + n) mod buffer_size st,
                       buffer_available := min (buffer_available st + n) (buffer_size st)\<rparr>)
         \<and> length B = buffer_size st
         \<and> drop (buffer_head st) B @ take (buffer_head st) B = take n data @ drop n (ring st)"
proof (cases "buffer_head st + n > buffer_size st")
  case True
  define c where "c = buffer_size st - buffer_head st"
  from True inv have cn: "c \<le> n" "c + buffer_head st = buffer_size st" "n \<le> buffer_size st" "n \<le> length data"
     "n - c \<le> buffer_head st"
    by (auto simp: c_def klog_inv_def n)
  from ok cn have ok1: "uaccess_ok readable 0 c" and ok2: "uaccess_ok readable c (n - c)"
    using uaccess_ok_split [of c n readable] by auto
  define d1 where "d1 = take c data"
  define d2 where "d2 = take (n - c) (drop c data)"
  define pre where "pre = take (buffer_head st) (klog_buffer st)"
  have l1: "length d1 = c" and l2: "length d2 = n - c" and lp: "length pre = buffer_head st"
    using inv cn by (auto simp: d1_def d2_def pre_def klog_inv_def)
  have tk: "d1 @ d2 = take n data"
    unfolding d1_def d2_def using cn by (metis le_add_diff_inverse take_add)
  let ?B1 = "mem_write (klog_buffer st) (buffer_head st) d1"
  let ?B = "mem_write ?B1 0 d2"
  have w: "klog_write st data readable =
           (Inr n, st\<lparr>klog_buffer := ?B,
                       buffer_head := (buffer_head st + n) mod buffer_size st,
                       buffer_available := min (buffer_available st + n) (buffer_size st)\<rparr>)"
    using True ok1 ok2
    by (simp add: klog_write_def n [symmetric] c_def [symmetric] copy_from_user_ok Let_def
        d1_def d2_def)
  have B1: "?B1 = pre @ d1"
    using inv cn by (simp add: mem_write_def klog_inv_def l1 pre_def add.commute)
  have B: "?B = d2 @ drop (n - c) pre @ d1"
    unfolding B1 using cn by (simp add: mem_write_def l2 lp)
  have len: "length ?B = buffer_size st"
    using cn by (simp add: B l1 l2 lp)
  have dr: "drop n (ring st) = drop (n - c) pre"
    using inv cn by (simp add: ring_def klog_inv_def pre_def c_def)
  have r: "drop (buffer_head st) ?B @ take (buffer_head st) ?B = take n data @ drop n (ring st)"
    using cn by (simp add: B dr l1 l2 lp tk [symmetric])
  from w len r show ?thesis by blast
next
  case False
  then have le: "buffer_head st + n \<le> buffer_size st" by simp
  let ?B = "mem_write (klog_buffer st) (buffer_head st) (take n data)"
  have w: "klog_write st data readable =
           (Inr n, st\<lparr>klog_buffer := ?B,
                       buffer_head := (buffer_head st + n) mod buffer_size st,
                       buffer_available := min (buffer_available st + n) (buffer_size st)\<rparr>)"
    using False ok
    by (simp add: klog_write_def n [symmetric] copy_from_user_ok Let_def)
  have nl: "n \<le> length data" by (simp add: n)
  have len: "length ?B = buffer_size st"
    using inv le nl by (simp add: mem_write_def klog_inv_def min_def)
  have r: "drop (buffer_head st) ?B @ take (buffer_head st) ?B = take n data @ drop n (ring st)"
    using inv le nl by (simp add: mem_write_def ring_def klog_inv_def min_def add.commute)
  from w len r show ?thesis by blast
qed

lemma klog_write_ring:
  assumes inv: "klog_inv st"
    and n: "n = min (length data) (buffer_size st)"
    and ok: "uaccess_ok readable 0 n"
  shows "fst (klog_write st data readable) = Inr n"
    and "klog_inv (snd (klog_write st data readable))"
    and "buffer_size (snd (klog_write st data readable)) = buffer_size st"
    and "buffer_head (snd (klog_write st data readable)) = (buffer_head st + n) mod buffer_size st"
    and "buffer_available (snd (klog_write st data readable)) =
           min (buffer_available st + n) (buffer_size st)"
    and "ring (snd (klog_write st data readable)) = drop n (ring st) @ take n data"
proof -
  from klog_write_ok [OF inv n ok] obtain B where
    w: "klog_write st data readable =
           (Inr n, st\<lparr>klog_buffer := B,
                       buffer_head := (buffer_head st + n) mod buffer_size st,
                       buffer_available := min (buffer_available st + n) (buffer_size st)\<rparr>)"
    and len: "length B = buffer_size st"
    and r: "drop (buffer_head st) B @ take (buffer_head st) B = take n data @ drop n (ring st)"
    by blast
  show "fst (klog_write st data readable) = Inr n" by (simp add: w)
  show "klog_inv (snd (klog_write st data readable))"
    using inv by (simp add: w klog_inv_def len)
  show "buffer_size (snd (klog_write st data readable)) = buffer_size st" by (simp add: w)
  show "buffer_head (snd (klog_write st data readable)) = (buffer_head st + n) mod buffer_size st"
    by (simp add: w)
  show "buffer_available (snd (klog_write st data readable)) =
           min (buffer_available st + n) (buffer_size st)" by (simp add: w)
  have nle: "n \<le> buffer_size st" "n \<le> length data" by (simp_all add: n)
  have "ring (snd (klog_write st data readable)) =
        drop ((buffer_head st + n) mod buffer_size st) B @ take ((buffer_head st + n) mod buffer_size st) B"
    by (simp add: w ring_def)
  also have "\<dots> = drop n (drop (buffer_head st) B @ take (buffer_head st) B)
                     @ take n (drop (buffer_head st) B @ take (buffer_head st) B)"
    using inv nle by (intro rotate_ring [OF len]) (simp_all add: klog_inv_def)
  also have "\<dots> = drop n (ring st) @ take n data"
    unfolding r using nle by simp
  finally show "ring (snd (klog_write st data readable)) = drop n (ring st) @ take n data" .
qed

lemma length_ring: "klog_inv st \<Longrightarrow> length (ring st) = buffer_size st"
  by (auto simp: ring_def klog_inv_def)

lemma length_klog_snapshot: "klog_inv st \<Longrightarrow> length (klog_snapshot st) = buffer_available st"
  by (simp add: klog_snapshot_ring length_lastn length_ring klog_inv_def)

lemma klog_write_snapshot:
  assumes inv: "klog_inv st"
    and n: "n = min (length data) (buffer_size st)"
    and ok: "uaccess_ok readable 0 n"
  shows "klog_snapshot (snd (klog_write st data readable)) =
         lastn (min (buffer_available st + n) (buffer_size st)) (klog_snapshot st @ take n data)"
proof -
  let ?st' = "snd (klog_write st data readable)"
  let ?a' = "min (buffer_available st + n) (buffer_size st)"
  let ?d = "take n data"
  note f = klog_write_ring [OF inv n ok]
  have nle: "n \<le> buffer_size st" "length ?d = n" by (simp_all add: n)
  have a: "buffer_available st \<le> buffer_size st" using inv by (simp add: klog_inv_def)
  have "klog_snapshot ?st' = lastn ?a' (drop n (ring st) @ ?d)"
    by (simp add: klog_snapshot_ring [OF f(2)] f(5) f(6))
  also have "\<dots> = lastn (?a' - n) (drop n (ring st)) @ ?d"
    using nle by (subst lastn_append) simp_all
  also have "\<dots> = lastn (?a' - n) (ring st) @ ?d"
    using nle by (subst lastn_drop) (simp_all add: length_ring [OF inv])
  also have "\<dots> = lastn (?a' - n) (lastn (buffer_available st) (ring st)) @ ?d"
    by (subst lastn_lastn) simp_all
  also have "\<dots> = lastn ?a' (klog_snapshot st @ ?d)"
    using nle by (subst lastn_append) (simp_all add: klog_snapshot_ring [OF inv])
  finally show ?thesis .
qed

lemma uaccess_ok_all_ok: "uaccess_ok all_ok p n"
  by (simp add: uaccess_ok_def all_ok_def list_all_iff)

lemma klog_inv_init: "0 < sz \<Longrightarrow> klog_inv (klog_init sz)"
  by (simp add: klog_inv_def klog_init_def)

lemma klog_snapshot_init: "klog_snapshot (klog_init sz) = []"
  by (simp add: klog_snapshot_def klog_init_def mem_read_def)

lemma appends_snapshot:
  "klog_inv st \<Longrightarrow>
   klog_inv (appends st ds) \<and>
   buffer_size (appends st ds) = buffer_size st \<and>
   buffer_available (appends st ds) =
     min (buffer_available st + length (concat (map (take (buffer_size st)) ds))) (buffer_size st) \<and>
   klog_snapshot (appends st ds) =
     lastn (min (buffer_available st + length (concat (map (take (buffer_size st)) ds))) (buffer_size st))
       (klog_snapshot st @ concat (map (take (buffer_size st)) ds))"
proof (induction ds arbitrary: st)
  case Nil
  then show ?case
    by (simp add: lastn_all length_klog_snapshot klog_inv_def)
next
  case (Cons d ds)
  let ?sz = "buffer_size st"
  let ?n = "min (length d) ?sz"
  let ?st1 = "snd (klog_write st d all_ok)"
  let ?H = "concat (map (take ?sz) ds)"
  note f = klog_write_ring [OF Cons.prems refl uaccess_ok_all_ok, of d]
  note s1 = klog_write_snapshot [OF Cons.prems refl uaccess_ok_all_ok, of d]
  note ih = Cons.IH [OF f(2), unfolded f(3) f(5)]
  have tk: "take ?n d = take ?sz d" by (simp add: min_def)
  have ln: "length (take ?sz d) = ?n" by (simp add: min.commute)
  let ?a1 = "min (buffer_available st + ?n) ?sz"
  let ?A = "min (?a1 + length ?H) ?sz"
  have A: "?A = min (buffer_available st + length (concat (map (take ?sz) (d # ds)))) ?sz"
    by (simp add: min_def)
  have "klog_snapshot (appends st (d # ds)) = lastn ?A (klog_snapshot ?st1 @ ?H)"
    using ih by simp
  also have "\<dots> = lastn ?A (lastn ?a1 (klog_snapshot st @ take ?sz d) @ ?H)"
    by (simp only: s1 tk)
  also have "\<dots> = lastn ?A ((klog_snapshot st @ take ?sz d) @ ?H)"
    by (rule lastn_lastn_append) simp
  finally have snap: "klog_snapshot (appends st (d # ds)) =
      lastn ?A (klog_snapshot st @ concat (map (take ?sz) (d # ds)))" by simp
  from ih have "klog_inv (appends st (d # ds))" "buffer_size (appends st (d # ds)) = ?sz"
    "buffer_available (appends st (d # ds)) = ?A" by simp_all
  with snap show ?case unfolding A by blast
qed

lemma appends_init_snapshot:
  assumes "0 < sz"
  shows "klog_snapshot (appends (klog_init sz) ds) = lastn sz (concat (map (take sz) ds))"
proof -
  let ?H = "concat (map (take sz) ds)"
  have "klog_snapshot (appends (klog_init sz) ds) = lastn (min (length ?H) sz) ?H"
    using appends_snapshot [OF klog_inv_init [OF assms], of ds]
    by (simp add: klog_snapshot_init) (simp add: klog_init_def)
  also have "\<dots> = lastn sz ?H"
    by (cases "length ?H \<le> sz") (simp_all add: lastn_all min_def)
  finally show ?thesis .
qed

lemma seq_printf_s_snoc: "seq_printf_s (xs @ [0]) = takeWhile (\<lambda>c. c \<noteq> 0) xs"
  by (induction xs) (simp_all add: seq_printf_s_def)

lemma klog_proc_show_ok: "fst (klog_proc_show st True) = Inr (takeWhile (\<lambda>c. c \<noteq> 0) (klog_snapshot st))"
  by (simp add: klog_proc_show_def seq_printf_s_snoc)

lemma total_le_take:
  "length (concat ds) \<le> sz \<Longrightarrow> map (take sz) ds = ds"
  by (induction ds) auto

lemma takeWhile_nonzero: "0 \<notin> set xs \<Longrightarrow> takeWhile (\<lambda>c. c \<noteq> 0) xs = xs"
  by (induction xs) auto

subsection \<open>A read whose copies succeed\<close>

lemma klog_read_ok:
  assumes inv: "klog_inv st"
    and a: "buffer_available st \<noteq> 0" and off: "offset < buffer_available st"
    and n: "n = min len (buffer_available st)"
    and rp: "rp = (buffer_head st + buffer_size st - buffer_available st + offset) mod buffer_size st"
    and ok: "uaccess_ok writable 0 n"
  shows "fst (klog_read st writable len offset) =
           Inr (if rp + n > buffer_size st
                then mem_read (klog_buffer st) rp (buffer_size st - rp)
                       @ mem_read (klog_buffer st) 0 (n - (buffer_size st - rp))
                else mem_read (klog_buffer st) rp n, offset + n)"
proof -
  let ?sz = "buffer_size st" and ?buf = "klog_buffer st"
  from inv have b: "0 < ?sz" "length ?buf = ?sz" "buffer_available st \<le> ?sz"
    by (simp_all add: klog_inv_def)
  have rpl: "rp < ?sz" using b by (simp add: rp)
  have nle: "n \<le> ?sz" using b by (simp add: n)
  show ?thesis
  proof (cases "rp + n > ?sz")
    case True
    define c where "c = ?sz - rp"
    from True rpl nle have cn: "c \<le> n" "rp + c \<le> length ?buf" "0 + (n - c) \<le> length ?buf"
      by (simp_all add: c_def b)
    from ok uaccess_ok_split [OF cn(1), of writable]
    have ok1: "uaccess_ok writable 0 c" and ok2: "uaccess_ok writable c (n - c)" by simp_all
    have c1: "copy_to_user writable 0 (mem_read ?buf rp c) = Some (mem_read ?buf rp c)"
      by (simp add: copy_to_user_def length_mem_read [OF cn(2)] ok1)
    have c2: "copy_to_user writable c (mem_read ?buf 0 (n - c)) = Some (mem_read ?buf 0 (n - c))"
      by (simp add: copy_to_user_def length_mem_read [OF cn(3)] ok2)
    have "klog_read st writable len offset =
            (Inr (mem_read ?buf rp c @ mem_read ?buf 0 (n - c), offset + n), st)"
      unfolding klog_read_def Let_def n [symmetric] rp [symmetric] c_def [symmetric]
      using a off True by (simp add: c1 c2)
    with True show ?thesis by (simp add: c_def)
  next
    case False
    then have le: "rp + n \<le> length ?buf" by (simp add: b)
    have c1: "copy_to_user writable 0 (mem_read ?buf rp n) = Some (mem_read ?buf rp n)"
      by (simp add: copy_to_user_def length_mem_read [OF le] ok)
    have "klog_read st writable len offset = (Inr (mem_read ?buf rp n, offset + n), st)"
      unfolding klog_read_def Let_def n [symmetric] rp [symmetric]
      using a off False by (simp add: c1)
    with False show ?thesis by simp
  qed
qed

subsection \<open>Faults, and the invariant along any sequence of calls\<close>

lemma klog_write_fault:
  assumes bad: "\<not> uaccess_ok readable 0 (min (length data) (buffer_size st))"
  shows "fst (klog_write st data readable) = Inl EFAULT \<and>
         buffer_head (snd (klog_write st data readable)) = buffer_head st \<and>
         buffer_available (snd (klog_write st data readable)) = buffer_available st \<and>
         buffer_size (snd (klog_write st data readable)) = buffer_size st"
proof -
  let ?sz = "buffer_size st" and ?h = "buffer_head st" and ?buf = "klog_buffer st"
  define n where "n = min (length data) ?sz"
  show ?thesis
  proof (cases "?h + n > ?sz")
    case True
    define c where "c = ?sz - ?h"
    from True have cn: "c \<le> n" by (simp add: c_def)
    obtain r1 b1 where e1: "copy_from_user ?buf ?h readable data 0 c = (r1, b1)"
      by (cases "copy_from_user ?buf ?h readable data 0 c")
    obtain r2 b2 where e2: "copy_from_user b1 0 readable data c (n - c) = (r2, b2)"
      by (cases "copy_from_user b1 0 readable data c (n - c)")
    have w: "klog_write st data readable =
               (if r1 \<noteq> 0 then (Inl EFAULT, st\<lparr>klog_buffer := b1\<rparr>)
                else if r2 \<noteq> 0 then (Inl EFAULT, st\<lparr>klog_buffer := b2\<rparr>)
                else (Inr n, st\<lparr>klog_buffer := b2,
                        buffer_head := (?h + n) mod ?sz,
                        buffer_available := min (buffer_available st + n) ?sz\<rparr>))"
      unfolding klog_write_def Let_def n_def [symmetric] c_def [symmetric]
      using True by (simp add: e1 e2)
    from bad uaccess_ok_split [OF cn, of readable]
    have "\<not> uaccess_ok readable 0 c \<or> \<not> uaccess_ok readable c (n - c)"
      by (simp add: n_def)
    then have "r1 \<noteq> 0 \<or> r2 \<noteq> 0"
      using copy_from_user_fault [of readable 0 c ?buf ?h data]
        copy_from_user_fault [of readable c "n - c" b1 0 data]
      by (auto simp: e1 e2)
    then show ?thesis by (auto simp: w)
  next
    case False
    obtain r b where e: "copy_from_user ?buf ?h readable data 0 n = (r, b)"
      by (cases "copy_from_user ?buf ?h readable data 0 n")
    have w: "klog_write st data readable =
               (if r \<noteq> 0 then (Inl EFAULT, st\<lparr>klog_buffer := b\<rparr>)
                else (Inr n, st\<lparr>klog_buffer := b,
                        buffer_head := (?h + n) mod ?sz,
                        buffer_available := min (buffer_available st + n) ?sz\<rparr>))"
      unfolding klog_write_def Let_def n_def [symmetric]
      using False by (simp add: e)
    from bad have "\<not> uaccess_ok readable 0 n" by (simp add: n_def)
    from copy_from_user_fault [OF this, of ?buf ?h data] have "r \<noteq> 0"
      by (simp add: e)
    then show ?thesis by (simp add: w)
  qed
qed

lemma klog_read_fault:
  assumes inv: "klog_inv st"
    and a: "buffer_available st \<noteq> 0" and off: "offset < buffer_available st"
    and bad: "\<not> uaccess_ok writable 0 (min len (buffer_available st))"
  shows "klog_read st writable len offset = (Inl EFAULT, st)"
proof -
  let ?sz = "buffer_size st" and ?buf = "klog_buffer st"
  define n where "n = min len (buffer_available st)"
  define rp where
    "rp = (buffer_head st + buffer_size st - buffer_available st + offset) mod buffer_size st"
  from inv have b: "0 < ?sz" "length ?buf = ?sz" "buffer_available st \<le> ?sz"
    by (simp_all add: klog_inv_def)
  have rpl: "rp < ?sz" using b by (simp add: rp_def)
  have nle: "n \<le> ?sz" using b by (simp add: n_def)
  show ?thesis
  proof (cases "rp + n > ?sz")
    case True
    define c where "c = ?sz - rp"
    from True rpl nle have cn: "c \<le> n" "rp + c \<le> length ?buf" "0 + (n - c) \<le> length ?buf"
      by (simp_all add: c_def b)
    from bad uaccess_ok_split [OF cn(1), of writable]
    have "\<not> uaccess_ok writable 0 c \<or> \<not> uaccess_ok writable c (n - c)"
      by (simp add: n_def)
    then have "copy_to_user writable 0 (mem_read ?buf rp c) = None \<or>
               copy_to_user writable c (mem_read ?buf 0 (n - c)) = None"
      by (auto simp add: copy_to_user_def length_mem_read [OF cn(2)] length_mem_read [OF cn(3)])
    then show ?thesis
      unfolding klog_read_def Let_def n_def [symmetric] rp_def [symmetric] c_def [symmetric]
      using a off True by (auto split: option.splits)
  next
    case False
    then have le: "rp + n \<le> length ?buf" by (simp add: b)
    from bad have "\<not> uaccess_ok writable 0 n" by (simp add: n_def)
    then have "copy_to_user writable 0 (mem_read ?buf rp n) = None"
      by (simp add: copy_to_user_def length_mem_read [OF le])
    then show ?thesis
      unfolding klog_read_def Let_def n_def [symmetric] rp_def [symmetric]
      using a off False by simp
  qed
qed

lemma klog_write_inv_fault:
  assumes inv: "klog_inv st"
    and bad: "\<not> uaccess_ok readable 0 (min (length data) (buffer_size st))"
  shows "length (klog_buffer (snd (klog_write st data readable))) = buffer_size st"
proof -
  let ?sz = "buffer_size st" and ?h = "buffer_head st" and ?buf = "klog_buffer st"
  define n where "n = min (length data) ?sz"
  from inv have b: "length ?buf = ?sz" "?h < ?sz" by (simp_all add: klog_inv_def)
  have nl: "n \<le> length data" "n \<le> ?sz" by (simp_all add: n_def)
  show ?thesis
  proof (cases "?h + n > ?sz")
    case True
    define c where "c = ?sz - ?h"
    from True b nl have cn: "?h + c \<le> length ?buf" "0 + c \<le> length data"
      "0 + (n - c) \<le> length ?buf" "c + (n - c) \<le> length data"
      by (simp_all add: c_def)
    let ?b1 = "snd (copy_from_user ?buf ?h readable data 0 c)"
    have l1: "length ?b1 = length ?buf" by (rule length_copy_from_user [OF cn(1,2)])
    from cn(3) have "0 + (n - c) \<le> length ?b1" by (simp only: l1)
    from length_copy_from_user [OF this cn(4), of readable] l1
    have l2: "length (snd (copy_from_user ?b1 0 readable data c (n - c))) = length ?buf" by simp
    show ?thesis
      unfolding klog_write_def Let_def n_def [symmetric] c_def [symmetric]
      using True l1 l2 b by (simp add: split_beta)
  next
    case False
    with b nl have cn: "?h + n \<le> length ?buf" "0 + n \<le> length data" by simp_all
    show ?thesis
      unfolding klog_write_def Let_def n_def [symmetric]
      using False length_copy_from_user [OF cn, of readable] b by (simp add: split_beta)
  qed
qed

lemma step_inv:
  assumes inv: "klog_inv st"
  shows "klog_inv (step st c) \<and> buffer_size (step st c) = buffer_size st \<and>
         buffer_available st \<le> buffer_available (step st c)"
proof (cases c)
  case (Write data readable)
  show ?thesis
  proof (cases "uaccess_ok readable 0 (min (length data) (buffer_size st))")
    case True
    note f = klog_write_ring [OF inv refl True]
    from inv have "buffer_available st \<le> buffer_size st" by (simp add: klog_inv_def)
    then show ?thesis using f(2,3,5) by (simp add: Write)
  next
    case False
    from klog_write_fault [OF False] klog_write_inv_fault [OF inv False] inv
    show ?thesis by (simp add: Write klog_inv_def)
  qed
next
  case (Read writable len offset)
  have "snd (klog_read st writable len offset) = st"
    by (simp add: klog_read_def Let_def split: option.splits)
  with inv show ?thesis by (simp add: Read)
next
  case (Dump alloc_ok)
  with inv show ?thesis by (simp add: klog_proc_show_def Let_def)
qed

lemma run_inv:
  "klog_inv st \<Longrightarrow>
   klog_inv (run st cs) \<and> buffer_size (run st cs) = buffer_size st \<and>
   buffer_available st \<le> buffer_available (run st cs)"
proof (induction cs arbitrary: st)
  case Nil
  then show ?case by simp
next
  case (Cons c cs)
  from step_inv [OF Cons.prems, of c]
  have s: "klog_inv (step st c)" "buffer_size (step st c) = buffer_size st"
    "buffer_available st \<le> buffer_available (step st c)" by simp_all
  from Cons.IH [OF s(1)] s(2,3) show ?case by auto
qed

section \<open>The claims\<close>

subsection \<open>Positional read\<close>

text \<open>
  C1. The claim: a read at \<open>offset < available\<close> returns exactly
  \<open>min maxLen (available - offset)\<close> bytes, taken from the window at that offset.
  \<^verbatim>\<open>klog_read\<close> computes \<^verbatim>\<open>bytes_to_read = min(len, buffer_available)\<close>
  without subtracting the offset. After the writes \<open>ABCD\<close> and \<open>EF\<close> to a fresh store of
  capacity 4 the window is \<open>CDEF\<close>; the read of 4 bytes at offset 2 returns the 4 bytes
  \<open>EFCD\<close> where the claim gives the 2 bytes \<open>EF\<close>: the code runs past the end of the
  window, wraps, and returns the two oldest bytes again.
\<close>

theorem klog_read_ignores_offset_in_length:
  "klog_snapshot (appends (klog_init 4) [[65, 66, 67, 68], [69, 70]]) = [67, 68, 69, 70] \<and>
   fst (klog_read (appends (klog_init 4) [[65, 66, 67, 68], [69, 70]]) all_ok 4 2) =
     Inr ([69, 70, 67, 68], 6)"
  by code_simp

text \<open>
  C2. The claim: no byte outside the logical window is returned by a read or a dump.
  After the single write \<open>AB\<close> to a fresh store of capacity 4 the window is \<open>AB\<close>
  (storage indices 0 and 1); the read of 2 bytes at offset 1 returns \<open>B\<close> followed by the
  byte at storage index 2, which was never written.
\<close>

theorem klog_read_returns_byte_outside_window:
  "klog_snapshot (appends (klog_init 4) [[65, 66]]) = [65, 66] \<and>
   fst (klog_read (appends (klog_init 4) [[65, 66]]) all_ok 2 1) = Inr ([66, 0], 3)"
  by code_simp

subsection \<open>Append\<close>

text \<open>
  C3, as the code has it. On a well-formed store, a write whose caller buffer is readable
  never fails: with \<open>n = min (length data) capacity\<close> it returns \<open>n\<close>, sets the head to
  \<open>(head + n) mod capacity\<close> and available to \<open>min (available + n) capacity\<close>, and stores
  the \<^emph>\<open>first\<close> \<open>n\<close> bytes of the input from the old head on, wrapping to index 0: going
  round the ring from the old head, position \<open>k\<close> holds \<open>data ! k\<close> for \<open>k < n\<close> and keeps its
  old byte for \<open>n \<le> k < capacity\<close>.
\<close>

theorem klog_write_stores_prefix:
  assumes inv: "klog_inv st"
    and n: "n = min (length data) (buffer_size st)"
    and ok: "uaccess_ok readable 0 n"
  shows "fst (klog_write st data readable) = Inr n \<and>
         buffer_head (snd (klog_write st data readable)) = (buffer_head st + n) mod buffer_size st \<and>
         buffer_available (snd (klog_write st data readable)) =
           min (buffer_available st + n) (buffer_size st) \<and>
         buffer_size (snd (klog_write st data readable)) = buffer_size st \<and>
         length (klog_buffer (snd (klog_write st data readable))) = buffer_size st \<and>
         (\<forall>k<buffer_size st.
            klog_buffer (snd (klog_write st data readable)) ! ((buffer_head st + k) mod buffer_size st) =
              (if k < n then data ! k
               else klog_buffer st ! ((buffer_head st + k) mod buffer_size st)))"
proof -
  let ?sz = "buffer_size st" and ?h = "buffer_head st"
  from klog_write_ok [OF inv n ok] obtain B where
    w: "klog_write st data readable =
           (Inr n, st\<lparr>klog_buffer := B,
                       buffer_head := (?h + n) mod ?sz,
                       buffer_available := min (buffer_available st + n) ?sz\<rparr>)"
    and len: "length B = ?sz"
    and r: "drop ?h B @ take ?h B = take n data @ drop n (ring st)"
    by blast
  have h: "?h < ?sz" and lb: "length (klog_buffer st) = ?sz"
    using inv by (simp_all add: klog_inv_def)
  have nl: "length (take n data) = n" by (simp add: n)
  have "B ! ((?h + k) mod ?sz) =
          (if k < n then data ! k else klog_buffer st ! ((?h + k) mod ?sz))" if k: "k < ?sz" for k
  proof -
    have "B ! ((?h + k) mod ?sz) = (take n data @ drop n (ring st)) ! k"
      using ring_nth [OF len h k] r by simp
    also have "\<dots> = (if k < n then data ! k else ring st ! k)"
      unfolding nth_append nl using k n by (auto simp add: length_ring [OF inv])
    also have "ring st ! k = klog_buffer st ! ((?h + k) mod ?sz)"
      unfolding ring_def by (rule ring_nth [OF lb h k])
    finally show ?thesis .
  qed
  then show ?thesis by (simp add: w len)
qed

text \<open>The write of \<open>DE\<close> at head 3 of a store of capacity 4 holding \<open>ABC\<close>: \<open>D\<close> goes to
  index 3, \<open>E\<close> wraps to index 0, index 1 keeps \<open>B\<close>.\<close>

theorem klog_write_stores_prefix_witness:
  "fst (klog_write \<lparr>buffer_size = 4, klog_buffer = [65, 66, 67, 0], buffer_head = 3,
                     buffer_available = 3\<rparr> [68, 69] all_ok) = Inr 2 \<and>
   buffer_head (snd (klog_write \<lparr>buffer_size = 4, klog_buffer = [65, 66, 67, 0], buffer_head = 3,
                     buffer_available = 3\<rparr> [68, 69] all_ok)) = 1 \<and>
   buffer_available (snd (klog_write \<lparr>buffer_size = 4, klog_buffer = [65, 66, 67, 0],
                     buffer_head = 3, buffer_available = 3\<rparr> [68, 69] all_ok)) = 4 \<and>
   klog_buffer (snd (klog_write \<lparr>buffer_size = 4, klog_buffer = [65, 66, 67, 0], buffer_head = 3,
                     buffer_available = 3\<rparr> [68, 69] all_ok)) ! 3 = 68 \<and>
   klog_buffer (snd (klog_write \<lparr>buffer_size = 4, klog_buffer = [65, 66, 67, 0], buffer_head = 3,
                     buffer_available = 3\<rparr> [68, 69] all_ok)) ! 0 = 69 \<and>
   klog_buffer (snd (klog_write \<lparr>buffer_size = 4, klog_buffer = [65, 66, 67, 0], buffer_head = 3,
                     buffer_available = 3\<rparr> [68, 69] all_ok)) ! 1 = 66"
proof -
  let ?st = "\<lparr>buffer_size = 4, klog_buffer = [65, 66, 67, 0], buffer_head = 3,
              buffer_available = 3\<rparr>"
  have inv: "klog_inv ?st" by (simp add: klog_inv_def)
  have n: "(2::nat) = min (length [68, 69 :: byte]) (buffer_size ?st)" by simp
  note t = klog_write_stores_prefix [OF inv n uaccess_ok_all_ok]
  from t have c: "\<forall>k<4. klog_buffer (snd (klog_write ?st [68, 69] all_ok)) ! ((3 + k) mod 4) =
                    (if k < 2 then [68, 69] ! k else [65, 66, 67, 0] ! ((3 + k) mod 4))"
    by simp
  from c [rule_format, of 0] c [rule_format, of 1] c [rule_format, of 2] t
  show ?thesis by simp
qed

text \<open>The claim's "last \<open>n\<close> bytes" fails when the input is longer than the capacity: the
  write of \<open>ABC\<close> to a fresh store of capacity 2 stores \<open>AB\<close>, not \<open>BC\<close>.\<close>

theorem klog_write_last_bytes_counterexample:
  "klog_buffer (snd (klog_write (klog_init 2) [65, 66, 67] all_ok)) = [65, 66] \<and>
   klog_buffer (snd (klog_write (klog_init 2) [65, 66, 67] all_ok)) \<noteq> lastn 2 [65, 66, 67]"
  by code_simp

subsection \<open>Dump after a sequence of appends\<close>

text \<open>
  C4, as the code has it. After successful writes to a fresh store whose total length is at
  most the capacity, a dump whose temporary buffer is allocated emits the concatenation of
  the written byte sequences in order, up to and not including its first zero byte
  (\<^verbatim>\<open>seq_printf\<close> with \<^verbatim>\<open>%s\<close> prints a C string); it is exactly the
  concatenation when no written byte is zero.
\<close>

theorem dump_within_capacity:
  assumes "0 < sz" and "length (concat ds) \<le> sz"
  shows "fst (klog_proc_show (appends (klog_init sz) ds) True) =
           Inr (takeWhile (\<lambda>c. c \<noteq> 0) (concat ds)) \<and>
         (0 \<notin> set (concat ds) \<longrightarrow>
            fst (klog_proc_show (appends (klog_init sz) ds) True) = Inr (concat ds))"
  using assms
  by (simp add: klog_proc_show_ok appends_init_snapshot total_le_take lastn_all takeWhile_nonzero)

theorem dump_within_capacity_witness:
  "fst (klog_proc_show (appends (klog_init 4) [[65, 66], [67]]) True) = Inr [65, 66, 67]"
proof -
  have "(0::nat) < 4" and "length (concat [[65, 66], [67 :: byte]]) \<le> 4" by simp_all
  from dump_within_capacity [OF this] show ?thesis by simp
qed

text \<open>A written zero byte cuts the dump: after the write of the three bytes 65, 0, 66 to a
  fresh store of capacity 4 the dump is the single byte 65.\<close>

theorem dump_within_capacity_counterexample:
  "fst (klog_proc_show (appends (klog_init 4) [[65, 0, 66]]) True) = Inr [65] \<and>
   fst (klog_proc_show (appends (klog_init 4) [[65, 0, 66]]) True) \<noteq> Inr (concat [[65, 0, 66]])"
  by code_simp

text \<open>
  C5, as the code has it. A write accepts the first \<open>min (length d) capacity\<close> bytes of its
  input \<open>d\<close>. After successful writes to a fresh store whose total length exceeds the
  capacity, a dump whose temporary buffer is allocated emits the last \<open>capacity\<close> bytes of
  the concatenation of the accepted bytes, up to and not including the first zero byte among
  them; when every input is no longer than the capacity and no written byte is zero, that is
  exactly the last \<open>capacity\<close> bytes of the concatenation of the inputs.
\<close>

theorem dump_beyond_capacity:
  assumes "0 < sz" and "sz < length (concat ds)"
  shows "fst (klog_proc_show (appends (klog_init sz) ds) True) =
           Inr (takeWhile (\<lambda>c. c \<noteq> 0) (lastn sz (concat (map (take sz) ds)))) \<and>
         (list_all (\<lambda>d. length d \<le> sz) ds \<and> 0 \<notin> set (concat ds) \<longrightarrow>
            fst (klog_proc_show (appends (klog_init sz) ds) True) = Inr (lastn sz (concat ds)))"
proof -
  have g: "fst (klog_proc_show (appends (klog_init sz) ds) True) =
           Inr (takeWhile (\<lambda>c. c \<noteq> 0) (lastn sz (concat (map (take sz) ds))))"
    using assms by (simp add: klog_proc_show_ok appends_init_snapshot)
  have "fst (klog_proc_show (appends (klog_init sz) ds) True) = Inr (lastn sz (concat ds))"
    if fit: "list_all (\<lambda>d. length d \<le> sz) ds" and nz: "0 \<notin> set (concat ds)"
  proof -
    from fit have m: "map (take sz) ds = ds" by (induction ds) simp_all
    from nz have "0 \<notin> set (lastn sz (concat ds))"
      unfolding lastn_def by (meson in_set_dropD)
    then show ?thesis by (simp add: g m takeWhile_nonzero)
  qed
  with g show ?thesis by blast
qed

theorem dump_beyond_capacity_witness:
  "fst (klog_proc_show (appends (klog_init 4) [[65, 66, 67], [68, 69, 70]]) True) =
     Inr [67, 68, 69, 70]"
proof -
  have "(0::nat) < 4" and "4 < length (concat [[65, 66, 67], [68, 69, 70 :: byte]])" by simp_all
  from dump_beyond_capacity [OF this] show ?thesis by (simp add: lastn_def)
qed

text \<open>A single write longer than the capacity keeps its first bytes, and a zero byte cuts
  the dump: after the write of 65, 0, 66 to a fresh store of capacity 2 the store holds
  65, 0 and the dump is the single byte 65, not the last two bytes 0, 66 of the input.\<close>

theorem dump_beyond_capacity_counterexample:
  "fst (klog_proc_show (appends (klog_init 2) [[65, 0, 66]]) True) = Inr [65] \<and>
   fst (klog_proc_show (appends (klog_init 2) [[65, 0, 66]]) True) \<noteq>
     Inr (lastn 2 (concat [[65, 0, 66]]))"
  by code_simp

subsection \<open>Snapshot and positional read\<close>

text \<open>
  C6. On every store that satisfies the invariant, the two-branch window copy of the dump
  (one piece when \<open>head \<ge> available\<close>, two pieces otherwise) yields the same bytes as the
  positional read of \<open>available\<close> bytes at offset 0 into a writable caller buffer, which
  uses the single start index \<open>(head + capacity - available + offset) mod capacity\<close>.
\<close>

theorem klog_snapshot_eq_read:
  assumes inv: "klog_inv st"
    and ok: "uaccess_ok writable 0 (buffer_available st)"
  shows "fst (klog_read st writable (buffer_available st) 0) =
           Inr (klog_snapshot st, buffer_available st)"
proof (cases "buffer_available st = 0")
  case True
  then show ?thesis by (simp add: klog_read_def klog_snapshot_def mem_read_def)
next
  case False
  let ?sz = "buffer_size st" and ?h = "buffer_head st" and ?a = "buffer_available st"
  let ?buf = "klog_buffer st"
  define rp where "rp = (?h + ?sz - ?a + 0) mod ?sz"
  from inv have b: "0 < ?sz" "length ?buf = ?sz" "?h < ?sz" "?a \<le> ?sz"
    by (simp_all add: klog_inv_def)
  from False have pos: "0 < ?a" by simp
  have n: "?a = min ?a ?a" by simp
  note r = klog_read_ok [OF inv False pos n rp_def ok]
  show ?thesis
  proof (cases "?a \<le> ?h")
    case True
    with b have "?h + ?sz - ?a + 0 = (?h - ?a) + ?sz" by arith
    then have rp: "rp = ?h - ?a" using b True unfolding rp_def by (simp only: mod_add_self2) simp
    from True b have nw: "\<not> (rp + ?a > ?sz)" unfolding rp by arith
    have "fst (klog_read st writable ?a 0) = Inr (mem_read ?buf rp ?a, ?a)"
      unfolding r using nw by simp
    also have "mem_read ?buf rp ?a = klog_snapshot st"
      unfolding rp klog_snapshot_def using True by simp
    finally show ?thesis .
  next
    case hlt: False
    with b have "?h + ?sz - ?a + 0 < ?sz" by arith
    then have "rp = ?h + ?sz - ?a + 0" unfolding rp_def by (rule mod_less)
    with hlt b have rp: "rp = ?sz - (?a - ?h)" by arith
    show ?thesis
    proof (cases "?h = 0")
      case True
      with b rp have nw: "\<not> (rp + ?a > ?sz)" by arith
      have "fst (klog_read st writable ?a 0) = Inr (mem_read ?buf rp ?a, ?a)"
        unfolding r using nw by simp
      also have "mem_read ?buf rp ?a = klog_snapshot st"
        unfolding rp klog_snapshot_def Let_def using hlt True by (simp add: mem_read_def)
      finally show ?thesis .
    next
      case h0: False
      with hlt b rp have w: "rp + ?a > ?sz" by arith
      from hlt b rp have c: "?sz - rp = ?a - ?h" "?a - (?a - ?h) = ?h" by arith+
      have "fst (klog_read st writable ?a 0) =
              Inr (mem_read ?buf rp (?a - ?h) @ mem_read ?buf 0 ?h, ?a)"
        unfolding r using w by (simp only: c if_True) simp
      also have "mem_read ?buf rp (?a - ?h) @ mem_read ?buf 0 ?h = klog_snapshot st"
        unfolding rp klog_snapshot_def Let_def using hlt by simp
      finally show ?thesis .
    qed
  qed
qed

text \<open>The wrapped store of capacity 4 with storage \<open>EFCD\<close> and head 2: both give \<open>CDEF\<close>.\<close>

theorem klog_snapshot_eq_read_witness:
  "fst (klog_read \<lparr>buffer_size = 4, klog_buffer = [69, 70, 67, 68], buffer_head = 2,
                    buffer_available = 4\<rparr> all_ok 4 0) = Inr ([67, 68, 69, 70], 4) \<and>
   klog_snapshot \<lparr>buffer_size = 4, klog_buffer = [69, 70, 67, 68], buffer_head = 2,
                   buffer_available = 4\<rparr> = [67, 68, 69, 70]"
proof -
  let ?st = "\<lparr>buffer_size = 4, klog_buffer = [69, 70, 67, 68], buffer_head = 2,
              buffer_available = 4\<rparr>"
  have inv: "klog_inv ?st" by (simp add: klog_inv_def)
  have s: "klog_snapshot ?st = [67, 68, 69, 70]"
    by (simp add: klog_snapshot_def mem_read_def)
  from klog_snapshot_eq_read [OF inv uaccess_ok_all_ok] s show ?thesis by simp
qed

subsection \<open>Faults at the user-space copy\<close>

text \<open>
  C7, as the code has it. On a store that satisfies the invariant, a write whose copy from
  the caller's buffer faults returns \<^verbatim>\<open>-EFAULT\<close> and leaves head, available and the
  capacity as they were; a read whose copy to the caller's buffer faults returns
  \<^verbatim>\<open>-EFAULT\<close> and leaves the whole store as it was. (Nothing is said of the storage
  bytes after a faulting write: the code copies into the storage before it learns of the
  fault.)
\<close>

theorem klog_fault_keeps_cursor:
  assumes inv: "klog_inv st"
  shows "(\<not> uaccess_ok readable 0 (min (length data) (buffer_size st)) \<longrightarrow>
            fst (klog_write st data readable) = Inl EFAULT \<and>
            buffer_head (snd (klog_write st data readable)) = buffer_head st \<and>
            buffer_available (snd (klog_write st data readable)) = buffer_available st \<and>
            buffer_size (snd (klog_write st data readable)) = buffer_size st) \<and>
         (buffer_available st \<noteq> 0 \<and> offset < buffer_available st \<and>
          \<not> uaccess_ok writable 0 (min len (buffer_available st)) \<longrightarrow>
            klog_read st writable len offset = (Inl EFAULT, st))"
  using klog_write_fault [of readable data st] klog_read_fault [OF inv, of offset writable len]
  by blast

theorem klog_fault_keeps_cursor_witness:
  "fst (klog_write \<lparr>buffer_size = 4, klog_buffer = [65, 66, 0, 0], buffer_head = 2,
                     buffer_available = 2\<rparr> [67, 68, 69, 70] (ok_below 2)) = Inl EFAULT \<and>
   buffer_head (snd (klog_write \<lparr>buffer_size = 4, klog_buffer = [65, 66, 0, 0], buffer_head = 2,
                     buffer_available = 2\<rparr> [67, 68, 69, 70] (ok_below 2))) = 2 \<and>
   buffer_available (snd (klog_write \<lparr>buffer_size = 4, klog_buffer = [65, 66, 0, 0],
                     buffer_head = 2, buffer_available = 2\<rparr> [67, 68, 69, 70] (ok_below 2))) = 2 \<and>
   klog_read \<lparr>buffer_size = 4, klog_buffer = [65, 66, 0, 0], buffer_head = 2,
               buffer_available = 2\<rparr> (ok_below 1) 2 0 =
     (Inl EFAULT, \<lparr>buffer_size = 4, klog_buffer = [65, 66, 0, 0], buffer_head = 2,
                    buffer_available = 2\<rparr>)"
proof -
  let ?st = "\<lparr>buffer_size = 4, klog_buffer = [65, 66, 0, 0], buffer_head = 2,
              buffer_available = 2\<rparr>"
  have inv: "klog_inv ?st" by (simp add: klog_inv_def)
  have w: "\<not> uaccess_ok (ok_below 2) 0 (min (length [67, 68, 69, 70 :: byte]) (buffer_size ?st))"
    by code_simp
  have r: "\<not> uaccess_ok (ok_below 1) 0 (min 2 (buffer_available ?st))"
    by code_simp
  from klog_fault_keeps_cursor [OF inv, of "ok_below 2" "[67, 68, 69, 70]" 0 "ok_below 1" 2] w r
  show ?thesis by simp
qed

text \<open>The storage is not left as it was by a faulting write: the write of \<open>CDEF\<close> at head 2
  of a store of capacity 4 holding \<open>AB\<close>, with only the first two bytes of the caller's
  buffer readable, copies \<open>CD\<close> to indices 2 and 3 before the second copy faults.\<close>

theorem klog_write_fault_storage_counterexample:
  "fst (klog_write (appends (klog_init 4) [[65, 66]]) [67, 68, 69, 70] (ok_below 2)) = Inl EFAULT \<and>
   klog_buffer (appends (klog_init 4) [[65, 66]]) ! 2 = 0 \<and>
   klog_buffer (snd (klog_write (appends (klog_init 4) [[65, 66]]) [67, 68, 69, 70] (ok_below 2))) ! 2
     = 67 \<and>
   snd (klog_write (appends (klog_init 4) [[65, 66]]) [67, 68, 69, 70] (ok_below 2)) \<noteq>
     appends (klog_init 4) [[65, 66]]"
  by code_simp

subsection \<open>The invariant and the purity of reads\<close>

text \<open>
  C8. Every call (a write, successful or faulting, a read, a dump) preserves the state
  invariant \<open>0 < capacity\<close>, \<open>head < capacity\<close>, \<open>available \<le> capacity\<close> (and the
  storage length and the capacity); along every sequence of calls available never
  decreases; and a successful write of \<open>data\<close> sets it to
  \<open>min (available + length data) capacity\<close>.
\<close>

theorem klog_inv_preserved:
  assumes inv: "klog_inv st"
  shows "klog_inv (run st cs) \<and>
         buffer_size (run st cs) = buffer_size st \<and>
         buffer_available st \<le> buffer_available (run st cs) \<and>
         (uaccess_ok readable 0 (min (length data) (buffer_size st)) \<longrightarrow>
            buffer_available (step st (Write data readable)) =
              min (buffer_available st + length data) (buffer_size st))"
proof -
  have "buffer_available (step st (Write data readable)) =
          min (buffer_available st + length data) (buffer_size st)"
    if ok: "uaccess_ok readable 0 (min (length data) (buffer_size st))"
    using klog_write_ring(5) [OF inv refl ok] by (simp add: min_def)
  with run_inv [OF inv, of cs] show ?thesis by blast
qed

theorem klog_inv_preserved_witness:
  "klog_inv (run (klog_init 4)
      [Write [65, 66, 67] all_ok, Read all_ok 2 1, Dump True, Write [68, 69] (ok_below 1),
       Write [70, 71] all_ok]) \<and>
   buffer_available (klog_init 4) \<le> buffer_available (run (klog_init 4)
      [Write [65, 66, 67] all_ok, Read all_ok 2 1, Dump True, Write [68, 69] (ok_below 1),
       Write [70, 71] all_ok]) \<and>
   buffer_available (step (klog_init 4) (Write [65, 66, 67, 68, 69] all_ok)) = 4"
proof -
  let ?cs = "[Write [65, 66, 67] all_ok, Read all_ok 2 1, Dump True, Write [68, 69] (ok_below 1),
              Write [70, 71] all_ok]"
  have inv: "klog_inv (klog_init 4)" by (simp add: klog_inv_init)
  have ok: "uaccess_ok all_ok 0 (min (length [65, 66, 67, 68, 69 :: byte]) (buffer_size (klog_init 4)))"
    by (rule uaccess_ok_all_ok)
  have m: "min (buffer_available (klog_init 4) + length [65, 66, 67, 68, 69 :: byte])
             (buffer_size (klog_init 4)) = 4"
    by (simp add: klog_init_def)
  from klog_inv_preserved [OF inv, of ?cs all_ok "[65, 66, 67, 68, 69]"] ok
  have "klog_inv (run (klog_init 4) ?cs)"
    and "buffer_available (klog_init 4) \<le> buffer_available (run (klog_init 4) ?cs)"
    and "buffer_available (step (klog_init 4) (Write [65, 66, 67, 68, 69] all_ok)) =
           min (buffer_available (klog_init 4) + length [65, 66, 67, 68, 69 :: byte])
             (buffer_size (klog_init 4))"
    by blast+
  then show ?thesis unfolding m by blast
qed

text \<open>
  C9. A read and a dump leave the store (storage, head, available) as it was, whatever
  their arguments and outcome, so a second read with the same offset and length returns
  what the first returned.
\<close>

theorem klog_read_pure:
  "snd (klog_read st writable len offset) = st \<and>
   snd (klog_proc_show st alloc_ok) = st \<and>
   klog_read (snd (klog_read st writable len offset)) writable len offset =
     klog_read st writable len offset"
proof -
  have "snd (klog_read st writable len offset) = st"
    by (simp add: klog_read_def Let_def split: option.splits)
  moreover have "snd (klog_proc_show st alloc_ok) = st"
    by (simp add: klog_proc_show_def Let_def)
  ultimately show ?thesis by simp
qed

text \<open>
  C10. On every store that satisfies the invariant, the write of a zero-length input
  returns 0 and leaves head, available and every byte of the storage as they were.
\<close>

theorem klog_write_empty:
  assumes "klog_inv st"
  shows "klog_write st [] readable = (Inr 0, st)"
  using assms
  by (simp add: klog_write_def klog_inv_def copy_from_user_def mem_write_def)

theorem klog_write_empty_witness:
  "klog_write \<lparr>buffer_size = 4, klog_buffer = [65, 66, 67, 0], buffer_head = 3,
                buffer_available = 3\<rparr> [] (ok_below 0) =
     (Inr 0, \<lparr>buffer_size = 4, klog_buffer = [65, 66, 67, 0], buffer_head = 3,
               buffer_available = 3\<rparr>)"
proof -
  have inv: "klog_inv \<lparr>buffer_size = 4, klog_buffer = [65, 66, 67, 0], buffer_head = 3,
                        buffer_available = 3\<rparr>" by (simp add: klog_inv_def)
  from klog_write_empty [OF inv] show ?thesis .
qed

end
